theory Spec2Isabelle
  imports Main "HOL-Library.Multiset"
begin

section \<open>Strings as the chunker uses them\<close>

text \<open>
  Python strings are modelled as \<open>string\<close> (lists of \<open>char\<close>), one \<open>char\<close> per
  character, so \<open>length\<close> is Python's \<open>len\<close> for texts whose code points are below 256.
  \<open>is_space\<close> lists the characters below 256 that \<open>str.strip()\<close> removes.
\<close>

definition is_space :: "char \<Rightarrow> bool" where
  "is_space c = (c \<in> set [CHR 0x09, CHR 0x0A, CHR 0x0B, CHR 0x0C, CHR 0x0D,
                            CHR 0x1C, CHR 0x1D, CHR 0x1E, CHR 0x1F, CHR 0x20,
                            CHR 0x85, CHR 0xA0])"

definition strip :: "string \<Rightarrow> string" where
  "strip s = rev (dropWhile is_space (rev (dropWhile is_space s)))"

definition sep :: string where
  "sep = [CHR 0x0A, CHR 0x0A]"

text \<open>
  \<open>text.split('\n\n')\<close>: the separator is searched from the left, occurrences do not
  overlap, and the result always has at least one piece.
\<close>

fun split_nn :: "string \<Rightarrow> string list" where
  "split_nn [] = [[]]"
| "split_nn [c] = [[c]]"
| "split_nn (c # d # cs) =
     (if c = CHR 0x0A \<and> d = CHR 0x0A then [] # split_nn cs
      else (case split_nn (d # cs) of
              [] \<Rightarrow> [[c]]
            | p # ps \<Rightarrow> (c # p) # ps))"

text \<open>\<open>sep.join(parts)\<close>.\<close>

fun join :: "string \<Rightarrow> string list \<Rightarrow> string" where
  "join s [] = []"
| "join s [p] = p"
| "join s (p # q # ps) = p @ s @ join s (q # ps)"

subsection \<open>Decimal formatting of integers in f-strings\<close>

definition digit_char :: "nat \<Rightarrow> char" where
  "digit_char d = char_of (48 + d)"

fun str_nat :: "nat \<Rightarrow> string" where
  "str_nat n = (if n < 10 then [digit_char n] else str_nat (n div 10) @ [digit_char (n mod 10)])"

declare str_nat.simps [simp del]

definition str_int :: "int \<Rightarrow> string" where
  "str_int i = (if i < 0 then CHR ''-'' # str_nat (nat (- i)) else str_nat (nat i))"

section \<open>The text chunker: \<open>DocumentProcessor.chunk_text_simple\<close>\<close>

record chunk =
  chunk_id :: string
  chunk_text :: string
  chunk_page :: int

definition make_chunk :: "int \<Rightarrow> nat \<Rightarrow> string \<Rightarrow> chunk" where
  "make_chunk page_num cid current_chunk =
     \<lparr> chunk_id = ''page'' @ str_int page_num @ ''_chunk'' @ str_nat cid,
       chunk_text = strip current_chunk,
       chunk_page = page_num \<rparr>"

text \<open>
  The loop over the paragraphs. The loop state is \<open>(chunks, current_chunk, chunk_id)\<close>;
  \<open>chunk_size\<close> is a Python \<open>int\<close>, so it is an \<open>int\<close> here and may be negative.
\<close>

fun chunk_loop :: "int \<Rightarrow> int \<Rightarrow> chunk list \<Rightarrow> string \<Rightarrow> nat \<Rightarrow> string list
                     \<Rightarrow> chunk list \<times> string \<times> nat" where
  "chunk_loop page_num chunk_size chunks current_chunk cid [] = (chunks, current_chunk, cid)"
| "chunk_loop page_num chunk_size chunks current_chunk cid (para0 # paragraphs) =
     (let para = strip para0 in
      if para = [] then chunk_loop page_num chunk_size chunks current_chunk cid paragraphs
      else if int (length current_chunk) + int (length para) > chunk_size \<and> current_chunk \<noteq> []
      then chunk_loop page_num chunk_size
             (chunks @ [make_chunk page_num cid current_chunk]) para (cid + 1) paragraphs
      else chunk_loop page_num chunk_size chunks
             (if current_chunk \<noteq> [] then current_chunk @ sep @ para else para) cid paragraphs)"

definition chunk_text_simple :: "string \<Rightarrow> int \<Rightarrow> int \<Rightarrow> chunk list" where
  "chunk_text_simple text page_num chunk_size =
     (case chunk_loop page_num chunk_size [] [] 0 (split_nn text) of
        (chunks, current_chunk, cid) \<Rightarrow>
          if strip current_chunk \<noteq> [] then chunks @ [make_chunk page_num cid current_chunk]
          else chunks)"

text \<open>The paragraphs the loop does not skip: the stripped, non-empty pieces, in order.\<close>

definition paragraphs_of :: "string \<Rightarrow> string list" where
  "paragraphs_of text = filter (\<lambda>p. p \<noteq> []) (map strip (split_nn text))"

text \<open>
  A text that \<open>strip\<close> leaves alone: not empty, no space at either end. A group is the
  list of paragraphs of one chunk; \<open>ok_group\<close> is what the loop keeps true of every
  group it closes, and \<open>group_chunks\<close> numbers the chunks of a list of groups.
\<close>

definition trimmed :: "string \<Rightarrow> bool" where
  "trimmed s = (s \<noteq> [] \<and> \<not> is_space (hd s) \<and> \<not> is_space (last s))"

definition ok_group :: "int \<Rightarrow> string list \<Rightarrow> bool" where
  "ok_group T g = (g \<noteq> [] \<and> list_all trimmed g \<and> (length g = 1 \<or> int (length (join sep g)) \<le> T + 2))"

fun group_chunks :: "int \<Rightarrow> nat \<Rightarrow> string list list \<Rightarrow> chunk list" where
  "group_chunks page_num cid [] = []"
| "group_chunks page_num cid (g # gs) =
     make_chunk page_num cid (join sep g) # group_chunks page_num (Suc cid) gs"


section \<open>Errors\<close>

datatype py_error =
    IndexError
  | InvalidNResults int
  | CapabilityError string

section \<open>The external capabilities of \<open>DocumentProcessor\<close>\<close>

text \<open>
  The embedding model is a parameter \<open>enc\<close> mapping one text to one vector of an
  arbitrary type \<open>'v\<close>; \<open>encode(texts)\<close> is \<open>map enc texts\<close> (one vector per text, in
  order).

  The vector store is an external library. Its collection is modelled by the contract the
  program relies on: a sequence of records; \<open>count()\<close> is its length; \<open>add\<close> appends
  one record per id; \<open>query\<close> rejects a number of results below 1 and otherwise returns
  the \<open>n_results\<close> records nearest to the query vector, nearest first, as parallel lists
  wrapped in one outer list per query vector. The distance is a parameter \<open>dist\<close> into
  an arbitrary linear order \<open>'d\<close>.
\<close>

record 'v stored =
  rec_id :: string
  rec_embedding :: 'v
  rec_document :: string
  rec_page :: int

datatype 'v capability_call =
    Encode "string list"
  | Add "'v stored list"

record 'v processor =
  collection :: "'v stored list"
  calls :: "'v capability_call list"

definition collection_count :: "'v processor \<Rightarrow> nat" where
  "collection_count s = length (collection s)"

definition make_records :: "string list \<Rightarrow> 'v list \<Rightarrow> string list \<Rightarrow> int list \<Rightarrow> 'v stored list" where
  "make_records ids embeddings documents metadatas =
     map (\<lambda>(i, e, d, m). \<lparr> rec_id = i, rec_embedding = e, rec_document = d, rec_page = m \<rparr>)
       (zip ids (zip embeddings (zip documents metadatas)))"

record 'd query_result =
  documents :: "string list list option"
  distances :: "'d list list option"
  metadatas :: "int list list option"

definition collection_query ::
  "('v \<Rightarrow> 'v \<Rightarrow> 'd::linorder) \<Rightarrow> 'v stored list \<Rightarrow> 'v \<Rightarrow> int \<Rightarrow> py_error + 'd query_result" where
  "collection_query dist coll query_embedding n_results =
     (if n_results \<le> 0 then Inl (InvalidNResults n_results)
      else let nearest = take (nat n_results)
                           (sort_key (\<lambda>r. dist query_embedding (rec_embedding r)) coll)
           in Inr \<lparr> documents = Some [map rec_document nearest],
                    distances = Some [map (\<lambda>r. dist query_embedding (rec_embedding r)) nearest],
                    metadatas = Some [map rec_page nearest] \<rparr>)"

section \<open>Indexing: \<open>extract_pages_generator\<close>, \<open>_store_batch\<close>, \<open>process_and_store_pdf\<close>\<close>

text \<open>
  A PDF is the list of the texts its pages extract to. The generator yields the 1-based
  page number and the stripped text of every page whose text is not blank.
\<close>

fun extract_pages_from :: "nat \<Rightarrow> string list \<Rightarrow> (int \<times> string) list" where
  "extract_pages_from page_num [] = []"
| "extract_pages_from page_num (page_text # pages) =
     (if page_text \<noteq> [] \<and> strip page_text \<noteq> []
      then (int page_num + 1, strip page_text) # extract_pages_from (page_num + 1) pages
      else extract_pages_from (page_num + 1) pages)"

definition extract_pages_generator :: "string list \<Rightarrow> (int \<times> string) list" where
  "extract_pages_generator pdf = extract_pages_from 0 pdf"

definition BATCH_SIZE :: nat where
  "BATCH_SIZE = 50"

definition store_batch :: "(string \<Rightarrow> 'v) \<Rightarrow> 'v processor \<Rightarrow> chunk list \<Rightarrow> nat \<times> 'v processor" where
  "store_batch enc s chunks =
     (if chunks = [] then (0, s)
      else let texts = map chunk_text chunks;
               ids = map chunk_id chunks;
               metas = map chunk_page chunks;
               embeddings = map enc texts;
               added = make_records ids embeddings texts metas
           in (length chunks,
               s\<lparr> collection := collection s @ added,
                  calls := calls s @ [Encode texts, Add added] \<rparr>))"

text \<open>The page loop; its state is \<open>(processor, all_chunks, total_indexed)\<close>.\<close>

fun index_loop :: "(string \<Rightarrow> 'v) \<Rightarrow> 'v processor \<Rightarrow> chunk list \<Rightarrow> nat \<Rightarrow> (int \<times> string) list
                     \<Rightarrow> 'v processor \<times> chunk list \<times> nat" where
  "index_loop enc s all_chunks total_indexed [] = (s, all_chunks, total_indexed)"
| "index_loop enc s all_chunks total_indexed ((page_num, page_text) # pages) =
     (let all_chunks1 = all_chunks @ chunk_text_simple page_text page_num 800 in
      if length all_chunks1 \<ge> BATCH_SIZE
      then (case store_batch enc s all_chunks1 of
              (indexed, s1) \<Rightarrow> index_loop enc s1 [] (total_indexed + indexed) pages)
      else index_loop enc s all_chunks1 total_indexed pages)"

definition process_and_store_pdf :: "(string \<Rightarrow> 'v) \<Rightarrow> 'v processor \<Rightarrow> string list \<Rightarrow> nat \<times> 'v processor" where
  "process_and_store_pdf enc s pdf =
     (if collection_count s > 0 then (collection_count s, s)
      else (case index_loop enc s [] 0 (extract_pages_generator pdf) of
              (s1, all_chunks, total_indexed) \<Rightarrow>
                if all_chunks \<noteq> []
                then (case store_batch enc s1 all_chunks of
                        (indexed, s2) \<Rightarrow> (total_indexed + indexed, s2))
                else (total_indexed, s1)))"

text \<open>All chunks of a PDF, page after page, and the records they are stored as.\<close>

definition page_chunks :: "(int \<times> string) list \<Rightarrow> chunk list" where
  "page_chunks pages = concat (map (\<lambda>(page_num, page_text). chunk_text_simple page_text page_num 800) pages)"

definition pdf_chunks :: "string list \<Rightarrow> chunk list" where
  "pdf_chunks pdf = page_chunks (extract_pages_generator pdf)"

definition chunk_records :: "(string \<Rightarrow> 'v) \<Rightarrow> chunk list \<Rightarrow> 'v stored list" where
  "chunk_records enc chunks =
     map (\<lambda>c. \<lparr> rec_id = chunk_id c, rec_embedding = enc (chunk_text c),
                rec_document = chunk_text c, rec_page = chunk_page c \<rparr>) chunks"

fun call_size :: "'v capability_call \<Rightarrow> nat" where
  "call_size (Add b) = length b"
| "call_size (Encode t) = length t"

section \<open>Retrieval: \<open>DocumentProcessor.search\<close>\<close>

record 'd search_result =
  res_text :: string
  res_distance :: "'d option"
  res_metadata :: "int option"

text \<open>\<open>n_results or settings.max_context_chunks\<close>: \<open>None\<close> and \<open>0\<close> are the falsy values.\<close>

definition n_results_or_default :: "int option \<Rightarrow> int \<Rightarrow> int" where
  "n_results_or_default n_results max_context_chunks =
     (case n_results of
        None \<Rightarrow> max_context_chunks
      | Some n \<Rightarrow> if n = 0 then max_context_chunks else n)"

text \<open>\<open>xs[0][i] if xs else None\<close>: an index out of range raises.\<close>

definition field_at :: "'a list list option \<Rightarrow> nat \<Rightarrow> py_error + 'a option" where
  "field_at field i =
     (case field of
        None \<Rightarrow> Inr None
      | Some [] \<Rightarrow> Inr None
      | Some (row # rows) \<Rightarrow> if i < length row then Inr (Some (row ! i)) else Inl IndexError)"

fun format_from :: "'d query_result \<Rightarrow> nat \<Rightarrow> string list \<Rightarrow> py_error + 'd search_result list" where
  "format_from results i [] = Inr []"
| "format_from results i (doc # docs) =
     (case field_at (distances results) i of
        Inl e \<Rightarrow> Inl e
      | Inr d \<Rightarrow>
         (case field_at (metadatas results) i of
            Inl e \<Rightarrow> Inl e
          | Inr m \<Rightarrow>
             (case format_from results (i + 1) docs of
                Inl e \<Rightarrow> Inl e
              | Inr rest \<Rightarrow> Inr (\<lparr> res_text = doc, res_distance = d, res_metadata = m \<rparr> # rest))))"

definition format_results :: "'d query_result \<Rightarrow> py_error + 'd search_result list" where
  "format_results results =
     (case documents results of
        None \<Rightarrow> Inr []
      | Some [] \<Rightarrow> Inr []
      | Some (row # rows) \<Rightarrow> format_from results 0 row)"

definition search ::
  "(string \<Rightarrow> 'v) \<Rightarrow> ('v \<Rightarrow> 'v \<Rightarrow> 'd::linorder) \<Rightarrow> int \<Rightarrow> 'v processor \<Rightarrow> string \<Rightarrow> int option
     \<Rightarrow> py_error + 'd search_result list" where
  "search enc dist max_context_chunks s query n_results =
     (let n = n_results_or_default n_results max_context_chunks;
          query_embedding = enc query
      in case collection_query dist (collection s) query_embedding n of
           Inl e \<Rightarrow> Inl e
         | Inr results \<Rightarrow> format_results results)"

text \<open>
  The dictionary that the formatting loop of \<open>search\<close> builds for one stored record
  \<open>r\<close>, where \<open>f\<close> gives the distance of an embedding from the query.
\<close>

definition to_result :: "('v \<Rightarrow> 'd) \<Rightarrow> 'v stored \<Rightarrow> 'd search_result" where
  "to_result f r = \<lparr> res_text = rec_document r, res_distance = Some (f (rec_embedding r)),
                     res_metadata = Some (rec_page r) \<rparr>"

section \<open>The answer chain: \<open>RAGChain\<close>\<close>

record message =
  role :: string
  content :: string

text \<open>\<open>xs[-n:]\<close> for a positive \<open>n\<close>.\<close>

definition last_n :: "nat \<Rightarrow> 'a list \<Rightarrow> 'a list" where
  "last_n n xs = drop (length xs - n) xs"

fun context_parts_from :: "nat \<Rightarrow> 'd search_result list \<Rightarrow> string list" where
  "context_parts_from i [] = []"
| "context_parts_from i (c # cs) =
     (''[Context '' @ str_nat i @ '']'' @ [CHR 0x0A] @ res_text c) # context_parts_from (i + 1) cs"

definition no_context :: string where
  "no_context = ''No relevant context found in the documentation.''"

definition build_context_prompt :: "'d search_result list \<Rightarrow> string" where
  "build_context_prompt context_chunks =
     (if context_chunks = [] then no_context
      else join sep (context_parts_from 1 context_chunks))"

definition user_message :: "string \<Rightarrow> string \<Rightarrow> string" where
  "user_message context question =
     ''Based on the following context from GCP documentation, please answer my question.''
     @ sep @ ''CONTEXT:'' @ [CHR 0x0A] @ context
     @ sep @ ''QUESTION: '' @ question
     @ sep @ ''Please provide a helpful and accurate answer based on the context above. ''
     @ ''If you need to explain how to deploy or use something, include practical steps.''"

record 'd source =
  src_text :: string
  src_relevance :: "'d option"

record 'd response =
  answer :: string
  sources :: "'d source list"
  context_used :: nat

text \<open>
  \<open>query\<close> takes the retriever \<open>srch\<close> (\<open>search\<close> on the processor the chain holds) and
  the completion capability \<open>complete\<close> (the call to the model with its fixed system
  prompt, returning the text of the first content block) as parameters; either may fail.
  The history is the state: it is returned updated on success, and a failure leaves it as
  it was, since both calls come before the two appends.
\<close>

definition query ::
  "(string \<Rightarrow> int option \<Rightarrow> py_error + 'd search_result list) \<Rightarrow> (message list \<Rightarrow> py_error + string)
     \<Rightarrow> int \<Rightarrow> message list \<Rightarrow> string \<Rightarrow> bool \<Rightarrow> int option
     \<Rightarrow> py_error + ('d response \<times> message list)" where
  "query srch complete default_chunks conversation_history question include_history max_context_chunks =
     (let max_chunks = n_results_or_default max_context_chunks default_chunks in
      case srch question (Some max_chunks) of
        Inl e \<Rightarrow> Inl e
      | Inr relevant_chunks \<Rightarrow>
         (let context = build_context_prompt relevant_chunks;
              messages = (if include_history \<and> conversation_history \<noteq> []
                          then last_n 6 conversation_history else [])
                         @ [\<lparr> role = ''user'', content = user_message context question \<rparr>]
          in case complete messages of
               Inl e \<Rightarrow> Inl e
             | Inr answer_text \<Rightarrow>
                (let history1 = conversation_history
                                @ [\<lparr> role = ''user'', content = question \<rparr>,
                                   \<lparr> role = ''assistant'', content = answer_text \<rparr>];
                     history2 = (if length history1 > 20 then last_n 20 history1 else history1)
                 in Inr (\<lparr> answer = answer_text,
                           sources = map (\<lambda>c. \<lparr> src_text = take 200 (res_text c) @ ''...'',
                                                  src_relevance = res_distance c \<rparr>) relevant_chunks,
                           context_used = length relevant_chunks \<rparr>,
                         history2))))"

text \<open>
  A session is a sequence of \<open>query\<close> calls on one chain, each with its own arguments and
  its own behaviour of the two capabilities. \<open>run_queries\<close> threads the history through
  them; \<open>run_transcript\<close> collects, for the same calls, every message a successful call
  appended, without the trimming.
\<close>

record 'd query_call =
  call_search :: "string \<Rightarrow> int option \<Rightarrow> py_error + 'd search_result list"
  call_complete :: "message list \<Rightarrow> py_error + string"
  call_question :: string
  call_include_history :: bool
  call_max_chunks :: "int option"

definition query_step :: "int \<Rightarrow> message list \<Rightarrow> 'd query_call \<Rightarrow> py_error + ('d response \<times> message list)" where
  "query_step default_chunks h c =
     query (call_search c) (call_complete c) default_chunks h
       (call_question c) (call_include_history c) (call_max_chunks c)"

fun run_queries :: "int \<Rightarrow> message list \<Rightarrow> 'd query_call list \<Rightarrow> message list" where
  "run_queries default_chunks h [] = h"
| "run_queries default_chunks h (c # cs) =
     (case query_step default_chunks h c of
        Inl e \<Rightarrow> run_queries default_chunks h cs
      | Inr (r, h1) \<Rightarrow> run_queries default_chunks h1 cs)"


text \<open>A history of whole exchanges: user and assistant messages in turn, user first.\<close>

fun alternates :: "message list \<Rightarrow> bool" where
  "alternates [] = True"
| "alternates [m] = False"
| "alternates (u # a # ms) = (role u = ''user'' \<and> role a = ''assistant'' \<and> alternates ms)"


section \<open>Sample capabilities for running the model\<close>

text \<open>
  A concrete embedding (the length of the text), a concrete distance on it, and a store
  of three records, used where a statement is evaluated on an explicit input.
\<close>

definition abs_dist :: "nat \<Rightarrow> nat \<Rightarrow> nat" where
  "abs_dist a b = (if a \<le> b then b - a else a - b)"

definition sample_processor :: "nat processor" where
  "sample_processor =
     \<lparr> collection =
         [\<lparr> rec_id = ''page1_chunk0'', rec_embedding = 9, rec_document = ''Cloud Run'', rec_page = 1 \<rparr>,
          \<lparr> rec_id = ''page1_chunk1'', rec_embedding = 3, rec_document = ''GKE'', rec_page = 1 \<rparr>,
          \<lparr> rec_id = ''page2_chunk0'', rec_embedding = 5, rec_document = ''Cloud'', rec_page = 2 \<rparr>],
       calls = [] \<rparr>"

text \<open>
  A \<open>query\<close> call on a chain that holds the sample store, with a completion capability
  that answers every request with a fixed sentence about the question.
\<close>

definition sample_call :: "string \<Rightarrow> nat query_call" where
  "sample_call q =
     \<lparr> call_search = search length abs_dist 5 sample_processor,
       call_complete = (\<lambda>messages. Inr (''Answer to '' @ q)),
       call_question = q,
       call_include_history = True,
       call_max_chunks = None \<rparr>"

section \<open>Properties of the chunker\<close>

lemma strip_trimmed: "strip s \<noteq> [] \<Longrightarrow> trimmed (strip s)"
proof -
  assume a: "strip s \<noteq> []"
  let ?d = "dropWhile is_space s"
  let ?r = "dropWhile is_space (rev ?d)"
  from a have r: "?r \<noteq> []" by (simp add: strip_def)
  then have d: "?d \<noteq> []" by (metis dropWhile.simps(1) rev.simps(1))
  have h1: "\<not> is_space (hd ?r)" using r hd_dropWhile by blast
  have h2: "\<not> is_space (hd ?d)" using d hd_dropWhile by blast
  have "last (strip s) = hd ?r" using r by (simp add: strip_def last_rev)
  moreover have "hd (strip s) = hd ?d"
  proof -
    have "hd (rev ?r) = last ?r" using r by (simp add: hd_rev)
    also have "last ?r = last (rev ?d)"
      using r by (metis last_appendR takeWhile_dropWhile_id)
    also have "\<dots> = hd ?d" using d by (simp add: last_rev)
    finally show ?thesis by (simp add: strip_def)
  qed
  ultimately show ?thesis using a h1 h2 by (simp add: trimmed_def)
qed

lemma trimmed_strip: "trimmed s \<Longrightarrow> strip s = s"
proof -
  assume t: "trimmed s"
  then obtain c cs where s: "s = c # cs" and c: "\<not> is_space c" by (cases s) (auto simp: trimmed_def)
  have 1: "dropWhile is_space s = s" using s c by simp
  have "rev s \<noteq> []" using s by simp
  moreover have "hd (rev s) = last s" using s by (simp add: hd_rev)
  ultimately have 2: "dropWhile is_space (rev s) = rev s"
    using t by (simp add: dropWhile_eq_self_iff trimmed_def)
  show ?thesis by (simp add: strip_def 1 2)
qed

lemma trimmed_join: "trimmed a \<Longrightarrow> trimmed b \<Longrightarrow> trimmed (a @ sep @ b)"
  by (cases a) (auto simp: trimmed_def sep_def)


lemma join_snoc: "g \<noteq> [] \<Longrightarrow> join s (g @ [p]) = join s g @ s @ p"
  by (induction s g rule: join.induct) auto

lemma trimmed_join_group: "g \<noteq> [] \<Longrightarrow> list_all trimmed g \<Longrightarrow> trimmed (join sep g)"
proof (induction g rule: rev_induct)
  case Nil then show ?case by simp
next
  case (snoc p g)
  show ?case
  proof (cases "g = []")
    case True with snoc.prems show ?thesis by simp
  next
    case False
    with snoc have "trimmed (join sep g)" "trimmed p" by auto
    then show ?thesis using False by (simp add: join_snoc trimmed_join)
  qed
qed

lemma chunk_loop_groups:
  assumes "g0 = [] \<or> ok_group T g0" and "cur = join sep g0"
  shows "\<exists>gs g1. chunk_loop P T chunks cur cid ps
                    = (chunks @ group_chunks P cid gs, join sep g1, cid + length gs)
               \<and> concat gs @ g1 = g0 @ filter (\<lambda>p. p \<noteq> []) (map strip ps)
               \<and> list_all (ok_group T) gs \<and> (g1 = [] \<or> ok_group T g1)"
  using assms
proof (induction ps arbitrary: chunks cur cid g0)
  case Nil
  show ?case
    apply (rule exI [of _ "[]"], rule exI [of _ g0])
    using Nil by simp
next
  case (Cons para0 ps)
  let ?para = "strip para0"
  have cur_empty: "cur = [] \<longleftrightarrow> g0 = []"
    using Cons.prems trimmed_join_group [of g0] by (auto simp: ok_group_def trimmed_def)
  show ?case
  proof (cases "?para = []")
    case True
    from Cons.IH [OF Cons.prems, of chunks cid] True show ?thesis by simp
  next
    case False
    then have tp: "trimmed ?para" by (rule strip_trimmed)
    have ok1: "ok_group T [?para]" using tp by (simp add: ok_group_def)
    show ?thesis
    proof (cases "int (length cur) + int (length ?para) > T \<and> cur \<noteq> []")
      case True
      then have g0: "ok_group T g0" using Cons.prems cur_empty by auto
      from Cons.IH [of "[?para]" ?para "chunks @ [make_chunk P cid cur]" "cid + 1"] ok1
      obtain gs g1 where
        l: "chunk_loop P T (chunks @ [make_chunk P cid cur]) ?para (cid + 1) ps
              = ((chunks @ [make_chunk P cid cur]) @ group_chunks P (cid + 1) gs, join sep g1, cid + 1 + length gs)"
        and c: "concat gs @ g1 = [?para] @ filter (\<lambda>p. p \<noteq> []) (map strip ps)"
        and o: "list_all (ok_group T) gs" "g1 = [] \<or> ok_group T g1"
        by auto
      show ?thesis
        apply (rule exI [of _ "g0 # gs"], rule exI [of _ g1])
        using l c o g0 True False Cons.prems(2)
        by simp
    next
      case nf: False
      let ?cur' = "if cur \<noteq> [] then cur @ sep @ ?para else ?para"
      have j: "?cur' = join sep (g0 @ [?para])"
        using cur_empty Cons.prems(2) by (auto simp: join_snoc)
      have ok: "ok_group T (g0 @ [?para])"
      proof (cases "g0 = []")
        case True then show ?thesis using ok1 by simp
      next
        case g: False
        then have "ok_group T g0" "cur \<noteq> []" using Cons.prems cur_empty by auto
        moreover have "int (length (join sep (g0 @ [?para]))) \<le> T + 2"
          using nf \<open>cur \<noteq> []\<close> Cons.prems(2) g by (simp add: join_snoc sep_def)
        ultimately show ?thesis using tp by (simp add: ok_group_def)
      qed
      from Cons.IH [of "g0 @ [?para]" ?cur' chunks cid] ok j
      obtain gs g1 where
        l: "chunk_loop P T chunks ?cur' cid ps
              = (chunks @ group_chunks P cid gs, join sep g1, cid + length gs)"
        and c: "concat gs @ g1 = (g0 @ [?para]) @ filter (\<lambda>p. p \<noteq> []) (map strip ps)"
        and o: "list_all (ok_group T) gs" "g1 = [] \<or> ok_group T g1"
        by blast
      show ?thesis
        apply (rule exI [of _ gs], rule exI [of _ g1])
        using l c o nf False by (auto simp: Let_def)
    qed
  qed
qed

lemma group_chunks_snoc:
  "group_chunks P cid (gs @ [g]) = group_chunks P cid gs @ [make_chunk P (cid + length gs) (join sep g)]"
  by (induction gs arbitrary: cid) auto

lemma chunk_text_simple_groups:
  "\<exists>gs. chunk_text_simple text P T = group_chunks P 0 gs
       \<and> concat gs = paragraphs_of text \<and> list_all (ok_group T) gs"
proof -
  from chunk_loop_groups [of "[]" T "[]" P "[]" 0 "split_nn text"]
  obtain gs g1 where
    l: "chunk_loop P T [] [] 0 (split_nn text) = (group_chunks P 0 gs, join sep g1, length gs)"
    and c: "concat gs @ g1 = paragraphs_of text"
    and o: "list_all (ok_group T) gs" "g1 = [] \<or> ok_group T g1"
    by (auto simp: paragraphs_of_def)
  show ?thesis
  proof (cases "g1 = []")
    case True
    then show ?thesis using l c o
      by (intro exI [of _ gs]) (simp add: chunk_text_simple_def strip_def)
  next
    case False
    then have ok: "ok_group T g1" using o by simp
    then have "trimmed (join sep g1)" by (simp add: ok_group_def trimmed_join_group)
    then have "strip (join sep g1) \<noteq> []" by (simp add: trimmed_strip trimmed_def)
    then show ?thesis using l c o ok
      by (intro exI [of _ "gs @ [g1]"])
         (simp add: chunk_text_simple_def group_chunks_snoc)
  qed
qed

lemma group_chunks_mem:
  "c \<in> set (group_chunks P cid gs) \<Longrightarrow> \<exists>g \<in> set gs. \<exists>i. c = make_chunk P i (join sep g)"
  by (induction gs arbitrary: cid) auto

lemma ok_group_text: "ok_group T g \<Longrightarrow> chunk_text (make_chunk P i (join sep g)) = join sep g"
  by (simp add: make_chunk_def ok_group_def trimmed_join_group trimmed_strip)

lemma group_chunks_texts:
  "list_all (ok_group T) gs \<Longrightarrow> map chunk_text (group_chunks P cid gs) = map (join sep) gs"
  by (induction gs arbitrary: cid) (auto simp: ok_group_text)

lemma join_len_mem: "p \<in> set g \<Longrightarrow> length p \<le> length (join s g)"
  by (induction s g rule: join.induct) auto

lemma join_len_sep: "p \<in> set g \<Longrightarrow> length g \<noteq> 1 \<Longrightarrow> length p + length s \<le> length (join s g)"
proof (induction s g rule: join.induct)
  case (1 s) then show ?case by simp
next
  case (2 s q) then show ?case by simp
next
  case (3 s a b ps)
  show ?case
  proof (cases "p = a")
    case True then show ?thesis by simp
  next
    case False
    then have "p \<in> set (b # ps)" using "3.prems"(1) by simp
    then have "length p \<le> length (join s (b # ps))" by (rule join_len_mem)
    then show ?thesis by simp
  qed
qed

lemma ok_group_long: "ok_group T g \<Longrightarrow> p \<in> set g \<Longrightarrow> T < int (length p) \<Longrightarrow> g = [p]"
proof -
  assume ok: "ok_group T g" and p: "p \<in> set g" and l: "T < int (length p)"
  show ?thesis
  proof (cases "length g = 1")
    case True
    then obtain q where "g = [q]" by (cases g) auto
    then show ?thesis using p by simp
  next
    case False
    then have "int (length (join sep g)) \<le> T + 2" using ok by (simp add: ok_group_def)
    moreover have "length p + length sep \<le> length (join sep g)" using p False by (rule join_len_sep)
    ultimately show ?thesis using l by (simp add: sep_def)
  qed
qed

lemma groups_filter_long:
  "\<forall>g \<in> set gs. \<forall>p \<in> set g. Q p \<longrightarrow> g = [p] \<Longrightarrow>
   filter (\<lambda>g. \<exists>p \<in> set g. Q p) gs = map (\<lambda>p. [p]) (filter Q (concat gs))"
proof (induction gs)
  case Nil show ?case by simp
next
  case (Cons g gs)
  then have ih: "filter (\<lambda>g. \<exists>p \<in> set g. Q p) gs = map (\<lambda>p. [p]) (filter Q (concat gs))" by simp
  show ?case
  proof (cases "\<exists>p \<in> set g. Q p")
    case True
    then obtain p where p: "p \<in> set g" "Q p" by blast
    then have "g = [p]" using Cons.prems by simp
    then show ?thesis using p ih by simp
  next
    case False
    then have "filter Q g = []" by (simp add: filter_empty_conv)
    then show ?thesis using False ih by simp
  qed
qed

subsection \<open>C1: oversized chunks\<close>

text \<open>
  C1, as the code has it by design. The chunks of \<open>chunk_text_simple text page T\<close> are the
  blank-line joins of consecutive non-empty groups \<open>gs\<close> of the paragraphs of the input,
  and the groups that hold a paragraph longer than \<open>T\<close> are, in order, exactly the
  one-paragraph groups of the paragraphs longer than \<open>T\<close>. So every paragraph longer than
  \<open>T\<close> is a chunk of its own, neither split nor joined with another paragraph; a call has
  one such oversized chunk for each of these paragraphs, not at most one; and every other
  chunk is made of paragraphs of length at most \<open>T\<close> only. The length of a chunk joined
  from several paragraphs is not part of this statement.
\<close>

theorem chunk_text_simple_oversized_paragraphs:
  "\<exists>gs. map chunk_text (chunk_text_simple text P T) = map (join sep) gs
      \<and> concat gs = paragraphs_of text \<and> [] \<notin> set gs
      \<and> filter (\<lambda>g. \<exists>p \<in> set g. T < int (length p)) gs
          = map (\<lambda>p. [p]) (filter (\<lambda>p. T < int (length p)) (paragraphs_of text))"
proof -
  obtain gs where gs: "chunk_text_simple text P T = group_chunks P 0 gs"
    "concat gs = paragraphs_of text" "list_all (ok_group T) gs"
    using chunk_text_simple_groups by blast
  have 1: "map chunk_text (chunk_text_simple text P T) = map (join sep) gs"
    using gs(1,3) by (simp add: group_chunks_texts)
  have 2: "[] \<notin> set gs" using gs(3) by (auto simp: list_all_iff ok_group_def)
  have "\<forall>g \<in> set gs. \<forall>p \<in> set g. T < int (length p) \<longrightarrow> g = [p]"
    using gs(3) ok_group_long by (auto simp: list_all_iff)
  then have 3: "filter (\<lambda>g. \<exists>p \<in> set g. T < int (length p)) gs
          = map (\<lambda>p. [p]) (filter (\<lambda>p. T < int (length p)) (concat gs))"
    by (rule groups_filter_long)
  show ?thesis
    by (rule exI [of _ gs]) (simp only: 1 2 3 gs(2) simp_thms)
qed

text \<open>
  C1 as stated fails twice. With threshold 3, two paragraphs of four characters give two
  oversized chunks in one call: one for each paragraph longer than the threshold. With
  threshold 4, two paragraphs of two characters, neither longer than the threshold, are
  joined into one chunk of six characters: the test of the loop adds the lengths of
  \<open>current_chunk\<close> and the paragraph (\<open>2 + 2 > 4\<close> is false) and leaves out the two
  characters of the separator that the join then inserts.
\<close>

theorem chunk_text_simple_oversized_counterexample:
  "map chunk_text (chunk_text_simple (''aaaa'' @ sep @ ''bbbb'') 1 3) = [''aaaa'', ''bbbb'']
   \<and> map chunk_text (chunk_text_simple (''ab'' @ sep @ ''cd'') 1 4) = [''ab'' @ sep @ ''cd'']
   \<and> paragraphs_of (''ab'' @ sep @ ''cd'') = [''ab'', ''cd'']
   \<and> length (''ab'' @ sep @ ''cd'') = 6"
  by code_simp

lemma digit_char_inj: "a < 10 \<Longrightarrow> b < 10 \<Longrightarrow> digit_char a = digit_char b \<Longrightarrow> a = b"
  by (auto simp: digit_char_def char_of_eq_iff take_bit_eq_mod)

lemma str_nat_length: "length (str_nat n) = 1 \<longleftrightarrow> n < 10"
proof (induction n rule: str_nat.induct)
  case (1 n)
  show ?case by (subst str_nat.simps) (use 1 in \<open>auto simp: str_nat.simps [of "n div 10"]\<close>)
qed

lemma str_nat_inj: "str_nat n = str_nat m \<Longrightarrow> n = m"
proof (induction n arbitrary: m rule: str_nat.induct)
  case (1 n)
  show ?case
  proof (cases "n < 10")
    case True
    then have "length (str_nat m) = 1" using "1.prems" str_nat_length [of n] by simp
    then have m: "m < 10" using str_nat_length [of m] by simp
    from "1.prems" True m have "digit_char n = digit_char m"
      by (simp add: str_nat.simps [of n] str_nat.simps [of m])
    then show ?thesis using True m digit_char_inj by blast
  next
    case False
    then have "length (str_nat m) \<noteq> 1" using "1.prems" str_nat_length [of n] by simp
    then have m: "\<not> m < 10" using str_nat_length [of m] by simp
    from "1.prems" False m
    have e: "str_nat (n div 10) @ [digit_char (n mod 10)] = str_nat (m div 10) @ [digit_char (m mod 10)]"
      by (simp add: str_nat.simps [of n] str_nat.simps [of m])
    then have "str_nat (n div 10) = str_nat (m div 10)" "digit_char (n mod 10) = digit_char (m mod 10)"
      by simp_all
    then have "n div 10 = m div 10" "n mod 10 = m mod 10"
      using "1.IH" [OF False] digit_char_inj [of "n mod 10" "m mod 10"] by simp_all
    then show ?thesis by (metis div_mult_mod_eq)
  qed
qed

lemma group_chunks_ids:
  "map chunk_id (group_chunks P cid gs)
     = map (\<lambda>i. ''page'' @ str_int P @ ''_chunk'' @ str_nat i) [cid ..< cid + length gs]"
proof (induction gs arbitrary: cid)
  case Nil show ?case by simp
next
  case (Cons g gs)
  have "[cid ..< cid + length (g # gs)] = cid # [Suc cid ..< Suc cid + length gs]"
    by (subst upt_rec) simp
  then show ?case using Cons [of "Suc cid"] by (simp add: make_chunk_def)
qed

lemma group_chunks_length: "length (group_chunks P cid gs) = length gs"
  by (induction gs arbitrary: cid) auto

subsection \<open>C6: the ids of the chunks\<close>

text \<open>
  C6. The ids of the chunks of one call are \<open>page<p>_chunk<i>\<close> for the page number
  \<open>p\<close> of the call and \<open>i = 0, 1, ...\<close> in the order of the chunks, and they are
  pairwise distinct. The ids are a function of \<open>(text, page, threshold)\<close>, as
  \<open>chunk_text_simple\<close> is, so a second run on the same input gives the same ids.
\<close>

theorem chunk_text_simple_ids:
  "map chunk_id (chunk_text_simple text P T)
     = map (\<lambda>i. ''page'' @ str_int P @ ''_chunk'' @ str_nat i) [0 ..< length (chunk_text_simple text P T)]
   \<and> distinct (map chunk_id (chunk_text_simple text P T))"
proof -
  obtain gs where gs: "chunk_text_simple text P T = group_chunks P 0 gs"
    using chunk_text_simple_groups by blast
  have 1: "map chunk_id (chunk_text_simple text P T)
     = map (\<lambda>i. ''page'' @ str_int P @ ''_chunk'' @ str_nat i) [0 ..< length (chunk_text_simple text P T)]"
    using group_chunks_ids [of P 0 gs] by (simp add: gs group_chunks_length)
  have "inj (\<lambda>i. ''page'' @ str_int P @ ''_chunk'' @ str_nat i)"
    by (rule injI) (simp add: str_nat_inj)
  then have "distinct (map (\<lambda>i. ''page'' @ str_int P @ ''_chunk'' @ str_nat i) [0 ..< length (chunk_text_simple text P T)])"
    by (simp add: distinct_map inj_on_def)
  with 1 show ?thesis by simp
qed

subsection \<open>C9: no paragraph is lost or moved\<close>

text \<open>
  C9. The chunk texts are the blank-line joins of a partition of the paragraph sequence
  into consecutive non-empty groups: the groups concatenate to the stripped, non-blank
  pieces of \<open>text.split('\n\n')\<close> in their input order, so every paragraph lies in
  exactly one chunk, in order, and a chunk holds nothing else.
\<close>

theorem chunk_text_simple_keeps_paragraphs:
  "\<exists>gs. concat gs = paragraphs_of text \<and> [] \<notin> set gs
      \<and> map chunk_text (chunk_text_simple text P T) = map (join sep) gs"
proof -
  obtain gs where gs: "chunk_text_simple text P T = group_chunks P 0 gs"
    "concat gs = paragraphs_of text" "list_all (ok_group T) gs"
    using chunk_text_simple_groups by blast
  have "[] \<notin> set gs" using gs(3) by (auto simp: list_all_iff ok_group_def)
  then show ?thesis using gs group_chunks_texts by metis
qed

section \<open>Properties of indexing\<close>

lemma make_records_chunks:
  "make_records (map chunk_id cs) (map enc (map chunk_text cs)) (map chunk_text cs) (map chunk_page cs)
     = chunk_records enc cs"
  by (induction cs) (simp_all add: make_records_def chunk_records_def)

lemma store_batch_result:
  "cs \<noteq> [] \<Longrightarrow> store_batch enc s cs =
     (length cs, s\<lparr> collection := collection s @ chunk_records enc cs,
                    calls := calls s @ [Encode (map chunk_text cs), Add (chunk_records enc cs)] \<rparr>)"
  by (simp add: store_batch_def Let_def make_records_chunks [unfolded map_map])

lemma chunk_records_append:
  "chunk_records enc (xs @ ys) = chunk_records enc xs @ chunk_records enc ys"
  by (simp add: chunk_records_def)

lemma chunk_records_length: "length (chunk_records enc xs) = length xs"
  by (simp add: chunk_records_def)

lemma page_chunks_Cons:
  "page_chunks ((p, t) # pages) = chunk_text_simple t p 800 @ page_chunks pages"
  by (simp add: page_chunks_def)

lemma index_loop_result:
  "index_loop enc s acc tot pages = (s1, all1, total1) \<Longrightarrow>
     collection s1 @ chunk_records enc all1 = collection s @ chunk_records enc (acc @ page_chunks pages)
   \<and> total1 + length all1 = tot + length acc + length (page_chunks pages)
   \<and> (\<exists>new. calls s1 = calls s @ new \<and> (\<forall>c \<in> set new. 0 < call_size c))
   \<and> (page_chunks pages = [] \<and> length acc < BATCH_SIZE \<longrightarrow> s1 = s \<and> all1 = acc \<and> total1 = tot)"
proof (induction pages arbitrary: s acc tot)
  case Nil
  then show ?case by (simp add: page_chunks_def)
next
  case (Cons pg pages)
  obtain p t where pg: "pg = (p, t)" by (cases pg)
  let ?acc = "acc @ chunk_text_simple t p 800"
  show ?case
  proof (cases "length ?acc \<ge> BATCH_SIZE")
    case True
    then have ne: "?acc \<noteq> []" by (auto simp: BATCH_SIZE_def)
    let ?s = "s\<lparr> collection := collection s @ chunk_records enc ?acc,
                  calls := calls s @ [Encode (map chunk_text ?acc), Add (chunk_records enc ?acc)] \<rparr>"
    from Cons.prems True pg
    have l: "index_loop enc ?s [] (tot + length ?acc) pages = (s1, all1, total1)"
      by (simp add: Let_def store_batch_result [OF ne] del: length_append map_append)
    from Cons.IH [OF l] obtain new where
      1: "collection s1 @ chunk_records enc all1 = collection ?s @ chunk_records enc ([] @ page_chunks pages)"
      and 2: "total1 + length all1 = tot + length ?acc + length ([]::chunk list) + length (page_chunks pages)"
      and 3: "calls s1 = calls ?s @ new" "\<forall>c \<in> set new. 0 < call_size c"
      by blast
    have a: "collection s1 @ chunk_records enc all1 = collection s @ chunk_records enc (acc @ page_chunks (pg # pages))"
      using 1 by (simp add: pg page_chunks_Cons chunk_records_append)
    have b: "total1 + length all1 = tot + length acc + length (page_chunks (pg # pages))"
      using 2 by (simp add: pg page_chunks_Cons)
    have c: "\<exists>new. calls s1 = calls s @ new \<and> (\<forall>c \<in> set new. 0 < call_size c)"
      apply (rule exI [of _ "[Encode (map chunk_text ?acc), Add (chunk_records enc ?acc)] @ new"])
      using 3 ne by (simp add: chunk_records_length del: map_append)
    have d: "\<not> (page_chunks (pg # pages) = [] \<and> length acc < BATCH_SIZE)"
      using True by (auto simp: pg page_chunks_Cons)
    show ?thesis using a b c d by blast
  next
    case False
    from Cons.prems False pg
    have l: "index_loop enc s ?acc tot pages = (s1, all1, total1)"
      by (simp add: Let_def del: length_append)
    from Cons.IH [OF l] have
      1: "collection s1 @ chunk_records enc all1 = collection s @ chunk_records enc (?acc @ page_chunks pages)"
      and 2: "total1 + length all1 = tot + length ?acc + length (page_chunks pages)"
      and 3: "\<exists>new. calls s1 = calls s @ new \<and> (\<forall>c \<in> set new. 0 < call_size c)"
      and 4: "page_chunks pages = [] \<and> length ?acc < BATCH_SIZE \<longrightarrow> s1 = s \<and> all1 = ?acc \<and> total1 = tot"
      by blast+
    have a: "collection s1 @ chunk_records enc all1 = collection s @ chunk_records enc (acc @ page_chunks (pg # pages))"
      using 1 by (simp add: pg page_chunks_Cons)
    have b: "total1 + length all1 = tot + length acc + length (page_chunks (pg # pages))"
      using 2 by (simp add: pg page_chunks_Cons)
    have d: "page_chunks (pg # pages) = [] \<and> length acc < BATCH_SIZE \<longrightarrow> s1 = s \<and> all1 = acc \<and> total1 = tot"
      using 4 by (auto simp: pg page_chunks_Cons)
    show ?thesis using a b 3 d by blast
  qed
qed

lemma process_fresh:
  assumes "collection_count s = 0" and "process_and_store_pdf enc s pdf = (n, s2)"
  shows "n = length (pdf_chunks pdf)
       \<and> collection s2 = collection s @ chunk_records enc (pdf_chunks pdf)
       \<and> (\<exists>new. calls s2 = calls s @ new \<and> (\<forall>c \<in> set new. 0 < call_size c))
       \<and> (pdf_chunks pdf = [] \<longrightarrow> s2 = s)"
proof -
  obtain s1 all1 total1 where l: "index_loop enc s [] 0 (extract_pages_generator pdf) = (s1, all1, total1)"
    by (metis prod_cases3)
  from index_loop_result [OF l] obtain new where
    1: "collection s1 @ chunk_records enc all1 = collection s @ chunk_records enc (pdf_chunks pdf)"
    and 2: "total1 + length all1 = length (pdf_chunks pdf)"
    and 3: "calls s1 = calls s @ new" "\<forall>c \<in> set new. 0 < call_size c"
    and 4: "pdf_chunks pdf = [] \<longrightarrow> s1 = s \<and> all1 = [] \<and> total1 = 0"
    by (auto simp: pdf_chunks_def BATCH_SIZE_def)
  show ?thesis
  proof (cases "all1 = []")
    case True
    then have "n = total1" "s2 = s1" using assms l by (simp_all add: process_and_store_pdf_def)
    then show ?thesis using True 1 2 3 4 by (auto simp: chunk_records_def)
  next
    case False
    then have n: "n = total1 + length all1"
      and s2: "s2 = s1\<lparr> collection := collection s1 @ chunk_records enc all1,
                    calls := calls s1 @ [Encode (map chunk_text all1), Add (chunk_records enc all1)] \<rparr>"
      using assms l by (simp_all add: process_and_store_pdf_def store_batch_result)
    have "calls s2 = calls s @ (new @ [Encode (map chunk_text all1), Add (chunk_records enc all1)])"
      using s2 3 by simp
    moreover have "\<forall>c \<in> set (new @ [Encode (map chunk_text all1), Add (chunk_records enc all1)]). 0 < call_size c"
      using 3 False by (simp add: chunk_records_length)
    ultimately have c: "\<exists>new. calls s2 = calls s @ new \<and> (\<forall>c \<in> set new. 0 < call_size c)" by blast
    have "pdf_chunks pdf \<noteq> []" using 4 False by auto
    then show ?thesis using n s2 1 2 c by simp
  qed
qed


lemma dropWhile_keeps: "x \<in> set xs \<Longrightarrow> \<not> P x \<Longrightarrow> x \<in> set (dropWhile P xs)"
  by (induction xs) auto

lemma strip_nonempty: "c \<in> set s \<Longrightarrow> \<not> is_space c \<Longrightarrow> strip s \<noteq> []"
proof -
  assume a: "c \<in> set s" "\<not> is_space c"
  then have "c \<in> set (dropWhile is_space s)" by (rule dropWhile_keeps)
  then have "c \<in> set (rev (dropWhile is_space s))" by simp
  then have "c \<in> set (dropWhile is_space (rev (dropWhile is_space s)))"
    using a(2) by (rule dropWhile_keeps)
  then have "dropWhile is_space (rev (dropWhile is_space s)) \<noteq> []" by force
  then show ?thesis by (simp add: strip_def)
qed

lemma split_nn_covers:
  "x \<in> set t \<Longrightarrow> \<not> is_space x \<Longrightarrow> \<exists>p \<in> set (split_nn t). x \<in> set p"
proof (induction t rule: split_nn.induct)
  case 1 then show ?case by simp
next
  case (2 c) then show ?case by simp
next
  case (3 c d cs)
  show ?case
  proof (cases "c = CHR 0x0A \<and> d = CHR 0x0A")
    case True
    then have "x \<noteq> c" "x \<noteq> d" using "3.prems"(2) by (auto simp: is_space_def)
    then have "x \<in> set cs" using "3.prems"(1) by simp
    then show ?thesis using "3.IH"(1) [OF True _ "3.prems"(2)] True by auto
  next
    case False
    show ?thesis
    proof (cases "x = c")
      case True
      then show ?thesis using False by (auto split: list.splits)
    next
      case xc: False
      then have "x \<in> set (d # cs)" using "3.prems"(1) by simp
      from "3.IH"(2) [OF False this "3.prems"(2)]
      show ?thesis using False by (auto split: list.splits)
    qed
  qed
qed

lemma chunk_text_simple_nonempty: "trimmed text \<Longrightarrow> chunk_text_simple text P T \<noteq> []"
proof -
  assume t: "trimmed text"
  then have "hd text \<in> set text" "\<not> is_space (hd text)" by (auto simp: trimmed_def)
  then obtain p where "p \<in> set (split_nn text)" "strip p \<noteq> []"
    using split_nn_covers strip_nonempty by blast
  then have ne: "paragraphs_of text \<noteq> []"
    by (auto simp: paragraphs_of_def filter_empty_conv)
  obtain gs where gs: "chunk_text_simple text P T = group_chunks P 0 gs"
    "concat gs = paragraphs_of text"
    using chunk_text_simple_groups by blast
  then have "gs \<noteq> []" using ne by auto
  then show ?thesis using gs(1) by (cases gs) auto
qed

lemma extract_pages_chunks:
  "page_chunks (extract_pages_from k pdf) = [] \<Longrightarrow> extract_pages_from k pdf = []"
proof (induction pdf arbitrary: k)
  case Nil then show ?case by simp
next
  case (Cons t pdf)
  show ?case
  proof (cases "t \<noteq> [] \<and> strip t \<noteq> []")
    case True
    then have "chunk_text_simple (strip t) (int k + 1) 800 \<noteq> []"
      by (simp add: chunk_text_simple_nonempty strip_trimmed)
    then show ?thesis using Cons.prems True by (simp add: page_chunks_Cons)
  next
    case False
    then show ?thesis using Cons by auto
  qed
qed

subsection \<open>C2: a second indexing call does nothing\<close>

text \<open>
  C2. Whatever the first call of \<open>process_and_store_pdf\<close> on a source returned, a second
  call on the same source, on the processor the first call left, returns the record count
  of the store and leaves the processor as it is: the collection and the log of embedding
  and store-write calls are unchanged, so the final count is that of a single call. Where
  the guard does not fire on the second call (the store is still empty), the source has no
  page to chunk.
\<close>

theorem process_and_store_pdf_idempotent:
  assumes "process_and_store_pdf enc s pdf = (n1, s1)"
  shows "process_and_store_pdf enc s1 pdf = (collection_count s1, s1)
       \<and> (collection_count s1 = 0 \<longrightarrow> extract_pages_generator pdf = [])"
proof (cases "collection_count s > 0")
  case True
  then have "s1 = s" using assms by (simp add: process_and_store_pdf_def)
  then show ?thesis using True by (simp add: process_and_store_pdf_def)
next
  case False
  then have z: "collection_count s = 0" by simp
  from process_fresh [OF z assms]
  have 1: "collection s1 = collection s @ chunk_records enc (pdf_chunks pdf)"
    and 2: "pdf_chunks pdf = [] \<longrightarrow> s1 = s" by blast+
  show ?thesis
  proof (cases "pdf_chunks pdf = []")
    case True
    then have s1: "s1 = s" using 2 by simp
    have e: "extract_pages_generator pdf = []"
      using True extract_pages_chunks by (simp add: pdf_chunks_def extract_pages_generator_def)
    then have "process_and_store_pdf enc s pdf = (0, s)"
      using z by (simp add: process_and_store_pdf_def)
    then show ?thesis using s1 z e by simp
  next
    case ne: False
    then have "collection_count s1 > 0" using 1 by (simp add: collection_count_def chunk_records_def)
    then show ?thesis by (simp add: process_and_store_pdf_def)
  qed
qed

theorem process_and_store_pdf_idempotent_witness:
  "process_and_store_pdf length \<lparr>collection = [], calls = []\<rparr> [''ab'']
     = (1, \<lparr>collection = [\<lparr>rec_id = ''page1_chunk0'', rec_embedding = 2, rec_document = ''ab'', rec_page = 1\<rparr>],
             calls = [Encode [''ab''],
                      Add [\<lparr>rec_id = ''page1_chunk0'', rec_embedding = 2, rec_document = ''ab'', rec_page = 1\<rparr>]]\<rparr>)
   \<and> process_and_store_pdf length
        \<lparr>collection = [\<lparr>rec_id = ''page1_chunk0'', rec_embedding = 2, rec_document = ''ab'', rec_page = 1\<rparr>],
          calls = [Encode [''ab''],
                   Add [\<lparr>rec_id = ''page1_chunk0'', rec_embedding = 2, rec_document = ''ab'', rec_page = 1\<rparr>]]\<rparr>
        [''ab'']
     = (1, \<lparr>collection = [\<lparr>rec_id = ''page1_chunk0'', rec_embedding = 2, rec_document = ''ab'', rec_page = 1\<rparr>],
             calls = [Encode [''ab''],
                      Add [\<lparr>rec_id = ''page1_chunk0'', rec_embedding = 2, rec_document = ''ab'', rec_page = 1\<rparr>]]\<rparr>)"
proof -
  have h: "process_and_store_pdf length \<lparr>collection = [], calls = []\<rparr> [''ab'']
     = (1, \<lparr>collection = [\<lparr>rec_id = ''page1_chunk0'', rec_embedding = 2, rec_document = ''ab'', rec_page = 1\<rparr>],
             calls = [Encode [''ab''],
                      Add [\<lparr>rec_id = ''page1_chunk0'', rec_embedding = 2, rec_document = ''ab'', rec_page = 1\<rparr>]]\<rparr>)"
    by code_simp
  show ?thesis using h process_and_store_pdf_idempotent [OF h] by (simp add: collection_count_def)
qed

subsection \<open>C10: an empty batch is never written\<close>

text \<open>
  C10, as the code has it. \<open>_store_batch\<close> on the empty list returns 0 and leaves the
  processor as it is: no embedding call, no store write. Every embedding call and every
  store write that \<open>process_and_store_pdf\<close> adds to the log carries at least one chunk.
  A source that yields no chunk leaves the processor unchanged, and the call returns the
  record count of the store: 0 on an empty store, the existing count on a store that
  already holds records, where the guard at the head of the function returns first.
\<close>

theorem store_batch_empty_noop:
  "store_batch enc s [] = (0, s)
   \<and> (\<exists>new. calls (snd (process_and_store_pdf enc s pdf)) = calls s @ new \<and> (\<forall>c \<in> set new. 0 < call_size c))
   \<and> (pdf_chunks pdf = [] \<longrightarrow> process_and_store_pdf enc s pdf = (collection_count s, s))"
proof (cases "collection_count s > 0")
  case True
  then have "process_and_store_pdf enc s pdf = (collection_count s, s)"
    by (simp add: process_and_store_pdf_def)
  then show ?thesis by (simp add: store_batch_def)
next
  case False
  then have z: "collection_count s = 0" by simp
  obtain n s2 where r: "process_and_store_pdf enc s pdf = (n, s2)" by (cases "process_and_store_pdf enc s pdf")
  from process_fresh [OF z r] show ?thesis using z by (auto simp add: r store_batch_def)
qed

theorem store_batch_empty_noop_witness:
  "store_batch length \<lparr>collection = [], calls = []\<rparr> [] = (0, \<lparr>collection = [], calls = []\<rparr>)
   \<and> pdf_chunks [''  ''] = []
   \<and> process_and_store_pdf length \<lparr>collection = [], calls = []\<rparr> [''  ''] = (0, \<lparr>collection = [], calls = []\<rparr>)
   \<and> process_and_store_pdf length sample_processor [''  ''] = (3, sample_processor)"
proof -
  have h: "pdf_chunks [''  ''] = []" by code_simp
  have c: "collection_count sample_processor = 3" by code_simp
  show ?thesis
    using store_batch_empty_noop [of length "\<lparr>collection = [], calls = []\<rparr>" "[''  '']"]
          store_batch_empty_noop [of length sample_processor "[''  '']"] h c
    by (simp add: collection_count_def)
qed

text \<open>
  C10 as stated fails in its last clause. A source of one blank page yields no chunk, and
  on a store of three records the call returns 3, not 0; the store is unchanged.
\<close>

theorem process_and_store_pdf_zero_chunks_counterexample:
  "pdf_chunks [''  ''] = []
   \<and> fst (process_and_store_pdf length sample_processor [''  '']) = 3
   \<and> snd (process_and_store_pdf length sample_processor [''  '']) = sample_processor"
  by code_simp

section \<open>Properties of retrieval\<close>

lemma format_from_ok:
  "length ds = length docs0 \<Longrightarrow> length ms = length docs0 \<Longrightarrow> i \<le> length docs0 \<Longrightarrow>
   format_from \<lparr>documents = D, distances = Some [ds], metadatas = Some [ms]\<rparr> i (drop i docs0)
     = Inr (map (\<lambda>j. \<lparr>res_text = docs0 ! j, res_distance = Some (ds ! j), res_metadata = Some (ms ! j)\<rparr>)
              [i ..< length docs0])"
proof (induction "length docs0 - i" arbitrary: i)
  case 0
  then show ?case by simp
next
  case (Suc n)
  then have i: "i < length docs0" by simp
  then have d: "drop i docs0 = docs0 ! i # drop (Suc i) docs0" by (simp add: Cons_nth_drop_Suc)
  have u: "[i ..< length docs0] = i # [Suc i ..< length docs0]" using i by (simp add: upt_conv_Cons)
  have n: "n = length docs0 - Suc i" using Suc.hyps(2) by simp
  have ih: "format_from \<lparr>documents = D, distances = Some [ds], metadatas = Some [ms]\<rparr> (Suc i) (drop (Suc i) docs0)
     = Inr (map (\<lambda>j. \<lparr>res_text = docs0 ! j, res_distance = Some (ds ! j), res_metadata = Some (ms ! j)\<rparr>)
              [Suc i ..< length docs0])"
    using Suc.hyps(1) [OF n Suc.prems(1) Suc.prems(2)] i by simp
  show ?case
    using i Suc.prems(1,2) ih by (simp add: d u field_at_def)
qed

lemma format_records:
  "format_results \<lparr>documents = Some [map rec_document ns],
                    distances = Some [map (\<lambda>r. f (rec_embedding r)) ns],
                    metadatas = Some [map rec_page ns]\<rparr>
     = Inr (map (to_result f) ns)"
proof -
  have "format_from \<lparr>documents = Some [map rec_document ns],
                      distances = Some [map (\<lambda>r. f (rec_embedding r)) ns],
                      metadatas = Some [map rec_page ns]\<rparr> 0 (drop 0 (map rec_document ns))
     = Inr (map (\<lambda>j. \<lparr>res_text = map rec_document ns ! j,
                       res_distance = Some (map (\<lambda>r. f (rec_embedding r)) ns ! j),
                       res_metadata = Some (map rec_page ns ! j)\<rparr>) [0 ..< length (map rec_document ns)])"
    by (rule format_from_ok) simp_all
  moreover have "map (\<lambda>j. \<lparr>res_text = map rec_document ns ! j,
                       res_distance = Some (map (\<lambda>r. f (rec_embedding r)) ns ! j),
                       res_metadata = Some (map rec_page ns ! j)\<rparr>) [0 ..< length (map rec_document ns)]
      = map (to_result f) ns"
    by (rule nth_equalityI) (simp_all add: to_result_def)
  ultimately show ?thesis by (simp add: format_results_def)
qed

lemma search_result:
  "1 \<le> k \<Longrightarrow> search enc dist dflt s q (Some k)
     = Inr (map (to_result (dist (enc q)))
              (take (nat k) (sort_key (\<lambda>r. dist (enc q) (rec_embedding r)) (collection s))))"
  by (simp add: search_def n_results_or_default_def collection_query_def Let_def format_records)

subsection \<open>C3: at most \<open>k\<close> results, nearest first\<close>

text \<open>
  C3. For every query and every \<open>k \<ge> 1\<close>, \<open>search\<close> returns a list and raises nothing:
  the formatting loop finds a distance and a page for every document the store returns.
  The list has at most \<open>k\<close> results, as many as the smaller of \<open>k\<close> and the number of
  records of the store, with distances in ascending order. When the store holds at most
  \<open>k\<close> records, the empty store included, the results are those of all records of the
  store. The store answers as its contract above says.
\<close>

theorem search_at_most_k:
  assumes "1 \<le> k"
  shows "\<exists>rs ds. search enc dist dflt s q (Some k) = Inr rs
           \<and> length rs \<le> nat k
           \<and> length rs = min (nat k) (collection_count s)
           \<and> map res_distance rs = map Some ds \<and> sorted ds
           \<and> (collection_count s \<le> nat k \<longrightarrow>
                mset rs = mset (map (to_result (dist (enc q))) (collection s)))"
proof -
  let ?f = "\<lambda>r. dist (enc q) (rec_embedding r)"
  let ?ns = "take (nat k) (sort_key ?f (collection s))"
  let ?rs = "map (to_result (dist (enc q))) ?ns"
  have 1: "search enc dist dflt s q (Some k) = Inr ?rs" using assms by (rule search_result)
  have 2: "length ?rs = min (nat k) (collection_count s)" by (simp add: collection_count_def min.commute)
  then have 6: "length ?rs \<le> nat k" by simp
  have 3: "map res_distance ?rs = map Some (map ?f ?ns)" by (simp add: to_result_def)
  have "sorted (map ?f (sort_key ?f (collection s)))" by (rule sorted_sort_key)
  then have 4: "sorted (map ?f ?ns)" by (simp add: take_map [symmetric])
  have 5: "collection_count s \<le> nat k \<longrightarrow>
             mset ?rs = mset (map (to_result (dist (enc q))) (collection s))"
  proof
    assume "collection_count s \<le> nat k"
    then have "?ns = sort_key ?f (collection s)" by (simp add: collection_count_def)
    then have "mset ?ns = mset (collection s)" by simp
    then show "mset ?rs = mset (map (to_result (dist (enc q))) (collection s))"
      by (metis mset_map)
  qed
  from 1 6 2 3 4 5 show ?thesis by blast
qed

theorem search_at_most_k_witness:
  "search length abs_dist 5 sample_processor ''abcd'' (Some 5)
     = Inr [\<lparr>res_text = ''GKE'', res_distance = Some 1, res_metadata = Some 1\<rparr>,
            \<lparr>res_text = ''Cloud'', res_distance = Some 1, res_metadata = Some 2\<rparr>,
            \<lparr>res_text = ''Cloud Run'', res_distance = Some 5, res_metadata = Some 1\<rparr>]
   \<and> mset [\<lparr>res_text = ''GKE'', res_distance = Some 1, res_metadata = Some 1\<rparr>,
            \<lparr>res_text = ''Cloud'', res_distance = Some 1, res_metadata = Some 2\<rparr>,
            \<lparr>res_text = ''Cloud Run'', res_distance = Some 5, res_metadata = Some 1\<rparr>]
     = mset (map (to_result (abs_dist (length ''abcd''))) (collection sample_processor))
   \<and> sorted [1, 1, 5 :: nat]
   \<and> search length abs_dist 5 \<lparr>collection = [], calls = []\<rparr> ''abcd'' (Some 5) = Inr []"
proof -
  have k: "(1::int) \<le> 5" by simp
  have c: "collection_count sample_processor \<le> nat 5" by code_simp
  have e: "search length abs_dist 5 sample_processor ''abcd'' (Some 5)
     = Inr [\<lparr>res_text = ''GKE'', res_distance = Some 1, res_metadata = Some 1\<rparr>,
            \<lparr>res_text = ''Cloud'', res_distance = Some 1, res_metadata = Some 2\<rparr>,
            \<lparr>res_text = ''Cloud Run'', res_distance = Some 5, res_metadata = Some 1\<rparr>]"
    by code_simp
  from search_at_most_k [OF k, of length abs_dist 5 sample_processor "''abcd''"] c
  obtain rs ds where r: "search length abs_dist 5 sample_processor ''abcd'' (Some 5) = Inr rs"
    "map res_distance rs = map Some ds" "sorted ds"
    "mset rs = mset (map (to_result (abs_dist (length ''abcd''))) (collection sample_processor))"
    by blast
  from r(1) e have rs: "rs = [\<lparr>res_text = ''GKE'', res_distance = Some 1, res_metadata = Some 1\<rparr>,
            \<lparr>res_text = ''Cloud'', res_distance = Some 1, res_metadata = Some 2\<rparr>,
            \<lparr>res_text = ''Cloud Run'', res_distance = Some 5, res_metadata = Some 1\<rparr>]" by simp
  then have "map Some ds = [Some 1, Some 1, Some 5]" using r(2) by simp
  then have "ds = [1, 1, 5]" by (auto simp: map_eq_Cons_conv)
  then have s: "sorted [1, 1, 5 :: nat]" using r(3) by simp
  from search_at_most_k [OF k, of length abs_dist 5 "\<lparr>collection = [], calls = []\<rparr>" "''abcd''"]
  obtain rs0 where "search length abs_dist 5 \<lparr>collection = [], calls = []\<rparr> ''abcd'' (Some 5) = Inr rs0"
    "length rs0 = min (nat 5) (collection_count \<lparr>collection = ([] :: nat stored list), calls = []\<rparr>)" by blast
  then have z: "search length abs_dist 5 \<lparr>collection = [], calls = []\<rparr> ''abcd'' (Some 5) = Inr []"
    by (simp add: collection_count_def)
  show ?thesis
    by (intro conjI) (rule e, rule r(4) [unfolded rs], rule s, rule z)
qed

subsection \<open>C4: the default number of results\<close>

text \<open>
  C4, as the code has it. \<open>n_results or settings.max_context_chunks\<close> puts the configured
  default in the place of a missing \<open>n_results\<close> and of \<open>0\<close>, and \<open>search\<close> then does
  what it does when the default is asked for. Every other number, a negative one included,
  goes to the store as it is; the store rejects a negative number and \<open>search\<close> passes the
  error on.
\<close>

theorem search_default_k:
  "search enc dist d s q None = search enc dist d s q (Some d)
   \<and> search enc dist d s q (Some 0) = search enc dist d s q (Some d)
   \<and> (k \<noteq> 0 \<longrightarrow> n_results_or_default (Some k) d = k)
   \<and> (k < 0 \<longrightarrow> search enc dist d s q (Some k) = Inl (InvalidNResults k))"
  by (simp add: search_def n_results_or_default_def collection_query_def)

theorem search_default_k_witness:
  "search length abs_dist 5 sample_processor ''abcd'' None
     = search length abs_dist 5 sample_processor ''abcd'' (Some 5)
   \<and> search length abs_dist 5 sample_processor ''abcd'' (Some 0)
     = search length abs_dist 5 sample_processor ''abcd'' (Some 5)
   \<and> n_results_or_default (Some (- 1)) 5 = - 1
   \<and> search length abs_dist 5 sample_processor ''abcd'' (Some (- 1)) = Inl (InvalidNResults (- 1))"
  using search_default_k [of length abs_dist 5 sample_processor "''abcd''" "- 1"] by simp

text \<open>
  C4 as stated fails for \<open>k = -1\<close>: it is not replaced by the default 5, the store is
  asked for \<open>-1\<close> results and the call fails, where a call with the default returns the
  three records of the store.
\<close>

theorem search_negative_k_counterexample:
  "search length abs_dist 5 sample_processor ''abcd'' (Some (- 1)) = Inl (InvalidNResults (- 1))
   \<and> search length abs_dist 5 sample_processor ''abcd'' (Some 5)
     = Inr [\<lparr>res_text = ''GKE'', res_distance = Some 1, res_metadata = Some 1\<rparr>,
            \<lparr>res_text = ''Cloud'', res_distance = Some 1, res_metadata = Some 2\<rparr>,
            \<lparr>res_text = ''Cloud Run'', res_distance = Some 5, res_metadata = Some 1\<rparr>]
   \<and> n_results_or_default (Some (- 1)) 5 = - 1"
  by code_simp

section \<open>Properties of the answer chain\<close>

lemma context_parts_from_map:
  "context_parts_from i cs
     = map (\<lambda>(j, c). ''[Context '' @ str_nat j @ '']'' @ [CHR 0x0A] @ res_text c) (zip [i ..< i + length cs] cs)"
proof (induction cs arbitrary: i)
  case Nil show ?case by simp
next
  case (Cons c cs)
  have "[i ..< i + length (c # cs)] = i # [Suc i ..< Suc i + length cs]"
    by (subst upt_rec) simp
  then show ?case using Cons [of "Suc i"] by simp
qed

lemma join_nonempty: "p \<noteq> [] \<Longrightarrow> join s (p # ps) \<noteq> []"
  by (cases ps) auto

subsection \<open>C7: the context block\<close>

text \<open>
  C7. For the empty list of chunks the context block is the marker text
  \<open>No relevant context found in the documentation.\<close> For a list that is not empty it is
  the chunks' texts in their order, the \<open>i\<close>-th (counting from 1) after the label
  \<open>[Context i]\<close> and a line break, joined by blank lines. The block is never empty.
\<close>

theorem build_context_prompt_labels:
  "build_context_prompt [] = ''No relevant context found in the documentation.''
   \<and> (cs \<noteq> [] \<longrightarrow>
        build_context_prompt cs
          = join sep (map (\<lambda>(j, c). ''[Context '' @ str_nat j @ '']'' @ [CHR 0x0A] @ res_text c)
                       (zip [1 ..< Suc (length cs)] cs)))
   \<and> build_context_prompt cs \<noteq> []"
proof -
  have 1: "build_context_prompt [] = ''No relevant context found in the documentation.''"
    by (simp add: build_context_prompt_def no_context_def)
  have 2: "build_context_prompt cs
          = join sep (map (\<lambda>(j, c). ''[Context '' @ str_nat j @ '']'' @ [CHR 0x0A] @ res_text c)
                       (zip [1 ..< Suc (length cs)] cs))" if "cs \<noteq> []"
    using that context_parts_from_map [of 1 cs] by (simp add: build_context_prompt_def)
  have 3: "build_context_prompt cs \<noteq> []"
  proof (cases cs)
    case Nil then show ?thesis by (simp add: build_context_prompt_def no_context_def)
  next
    case (Cons c cs')
    then show ?thesis by (simp add: build_context_prompt_def join_nonempty)
  qed
  from 1 2 3 show ?thesis by blast
qed

theorem build_context_prompt_labels_witness:
  "build_context_prompt [\<lparr>res_text = ''GKE'', res_distance = Some (1::nat), res_metadata = Some 1\<rparr>,
                         \<lparr>res_text = ''Cloud'', res_distance = Some 1, res_metadata = Some 2\<rparr>]
     = ''[Context 1]'' @ [CHR 0x0A] @ ''GKE'' @ [CHR 0x0A, CHR 0x0A] @ ''[Context 2]'' @ [CHR 0x0A] @ ''Cloud''"
proof -
  let ?cs = "[\<lparr>res_text = ''GKE'', res_distance = Some (1::nat), res_metadata = Some 1\<rparr>,
              \<lparr>res_text = ''Cloud'', res_distance = Some 1, res_metadata = Some 2\<rparr>]"
  have n: "?cs \<noteq> []" by simp
  have e: "join sep (map (\<lambda>(j, c). ''[Context '' @ str_nat j @ '']'' @ [CHR 0x0A] @ res_text c)
                       (zip [1 ..< Suc (length ?cs)] ?cs))
     = ''[Context 1]'' @ [CHR 0x0A] @ ''GKE'' @ [CHR 0x0A, CHR 0x0A] @ ''[Context 2]'' @ [CHR 0x0A] @ ''Cloud''"
    by code_simp
  from build_context_prompt_labels [of ?cs] n
  have "build_context_prompt ?cs
          = join sep (map (\<lambda>(j, c). ''[Context '' @ str_nat j @ '']'' @ [CHR 0x0A] @ res_text c)
                       (zip [1 ..< Suc (length ?cs)] ?cs))" by blast
  then show ?thesis by (simp only: e)
qed




lemma query_step_history:
  "query_step d h c = Inr (r, h1) \<Longrightarrow>
   h1 = last_n 20 (h @ [\<lparr>role = ''user'', content = call_question c\<rparr>,
                        \<lparr>role = ''assistant'', content = answer r\<rparr>])"
  by (auto simp: query_step_def query_def Let_def last_n_def split: sum.splits if_splits)


subsection \<open>C5: the cap on the history\<close>


text \<open>
  Eleven calls on the sample store: the user message and the answer of the first call are
  gone, the twenty messages of the ten later calls remain.
\<close>

lemma query_history_cap_example:
  "map content (run_queries 5 []
      (map sample_call [''a'', ''b'', ''c'', ''d'', ''e'', ''f'', ''g'', ''h'', ''i'', ''j'', ''k'']))
   = [''b'', ''Answer to b'', ''c'', ''Answer to c'', ''d'', ''Answer to d'', ''e'', ''Answer to e'',
      ''f'', ''Answer to f'', ''g'', ''Answer to g'', ''h'', ''Answer to h'', ''i'', ''Answer to i'',
      ''j'', ''Answer to j'', ''k'', ''Answer to k'']"
  by code_simp

lemma alternates_even: "alternates xs \<Longrightarrow> even (length xs)"
  by (induction xs rule: alternates.induct) auto

lemma alternates_append: "alternates xs \<Longrightarrow> alternates ys \<Longrightarrow> alternates (xs @ ys)"
  by (induction xs rule: alternates.induct) auto

lemma alternates_drop: "alternates xs \<Longrightarrow> alternates (drop (2 * k) xs)"
proof (induction k arbitrary: xs)
  case 0 then show ?case by simp
next
  case (Suc k)
  show ?case
  proof (cases xs rule: alternates.cases)
    case 1 then show ?thesis by simp
  next
    case (2 m) then show ?thesis using Suc.prems by simp
  next
    case (3 u a ms)
    then have "alternates ms" using Suc.prems by simp
    then have "alternates (drop (2 * k) ms)" by (rule Suc.IH)
    then show ?thesis using 3 by simp
  qed
qed

lemma alternates_last_n: "alternates xs \<Longrightarrow> even n \<Longrightarrow> alternates (last_n n xs)"
proof -
  assume a: "alternates xs" and n: "even n"
  have "even (length xs)" using a by (rule alternates_even)
  then have "even (length xs - n)" using n by simp
  then obtain k where "length xs - n = 2 * k" by (rule evenE)
  then show ?thesis using a by (simp add: last_n_def alternates_drop)
qed

lemma query_step_alternates:
  "alternates h \<Longrightarrow> query_step d h c = Inr (r, h1) \<Longrightarrow> alternates h1"
proof -
  assume a: "alternates h" and s: "query_step d h c = Inr (r, h1)"
  let ?new = "[\<lparr>role = ''user'', content = call_question c\<rparr>, \<lparr>role = ''assistant'', content = answer r\<rparr>]"
  have "alternates ?new" by simp
  then have "alternates (h @ ?new)" using a by (simp only: alternates_append)
  then have "alternates (last_n 20 (h @ ?new))" by (rule alternates_last_n) simp
  then show ?thesis using query_step_history [OF s] by simp
qed

lemma run_queries_alternates: "alternates h \<Longrightarrow> alternates (run_queries d h cs)"
proof (induction cs arbitrary: h)
  case Nil then show ?case by simp
next
  case (Cons c cs)
  show ?case
  proof (cases "query_step d h c")
    case (Inl e) then show ?thesis using Cons by simp
  next
    case (Inr p)
    obtain r h1 where p: "p = (r, h1)" by (cases p)
    then have "alternates h1" using Cons.prems Inr query_step_alternates by blast
    then have "alternates (run_queries d h1 cs)" by (rule Cons.IH)
    then show ?thesis using Inr p by simp
  qed
qed

subsection \<open>C8: the turns of the history\<close>

text \<open>
  C8. After any sequence of \<open>query\<close> calls on a new chain the history has an even number
  of messages, user and assistant in turn, a user message first. A successful call on any
  history appends the question as a user message and the answer as an assistant message
  and keeps the last 20 messages; on a history of whole turns the result is again a
  history of whole turns.
\<close>

theorem query_history_alternates:
  "alternates (run_queries d [] cs) \<and> even (length (run_queries d [] cs))
   \<and> (query_step d h c = Inr (r, h1) \<longrightarrow>
        h1 = last_n 20 (h @ [\<lparr>role = ''user'', content = call_question c\<rparr>,
                             \<lparr>role = ''assistant'', content = answer r\<rparr>])
        \<and> (alternates h \<longrightarrow> alternates h1 \<and> even (length h1)))"
proof -
  have 1: "alternates (run_queries d [] cs)" by (rule run_queries_alternates) simp
  then have 2: "even (length (run_queries d [] cs))" by (rule alternates_even)
  have 3: "query_step d h c = Inr (r, h1) \<longrightarrow>
        h1 = last_n 20 (h @ [\<lparr>role = ''user'', content = call_question c\<rparr>,
                             \<lparr>role = ''assistant'', content = answer r\<rparr>])
        \<and> (alternates h \<longrightarrow> alternates h1 \<and> even (length h1))"
    using query_step_history query_step_alternates alternates_even by blast
  from 1 2 3 show ?thesis by blast
qed

theorem query_history_alternates_witness:
  "query_step 5 [] (sample_call ''What is GKE?'')
     = Inr (\<lparr>answer = ''Answer to What is GKE?'',
             sources = [\<lparr>src_text = ''Cloud Run...'', src_relevance = Some 3\<rparr>,
                        \<lparr>src_text = ''Cloud...'', src_relevance = Some 7\<rparr>,
                        \<lparr>src_text = ''GKE...'', src_relevance = Some 9\<rparr>],
             context_used = 3\<rparr>,
            [\<lparr>role = ''user'', content = ''What is GKE?''\<rparr>,
             \<lparr>role = ''assistant'', content = ''Answer to What is GKE?''\<rparr>])
   \<and> [\<lparr>role = ''user'', content = ''What is GKE?''\<rparr>,
      \<lparr>role = ''assistant'', content = ''Answer to What is GKE?''\<rparr>]
     = last_n 20 ([] @ [\<lparr>role = ''user'', content = call_question (sample_call ''What is GKE?'')\<rparr>,
                        \<lparr>role = ''assistant'', content = ''Answer to What is GKE?''\<rparr>])
   \<and> alternates [\<lparr>role = ''user'', content = ''What is GKE?''\<rparr>,
                 \<lparr>role = ''assistant'', content = ''Answer to What is GKE?''\<rparr>]"
proof -
  have s: "query_step 5 [] (sample_call ''What is GKE?'')
     = Inr (\<lparr>answer = ''Answer to What is GKE?'',
             sources = [\<lparr>src_text = ''Cloud Run...'', src_relevance = Some 3\<rparr>,
                        \<lparr>src_text = ''Cloud...'', src_relevance = Some 7\<rparr>,
                        \<lparr>src_text = ''GKE...'', src_relevance = Some 9\<rparr>],
             context_used = 3\<rparr>,
            [\<lparr>role = ''user'', content = ''What is GKE?''\<rparr>,
             \<lparr>role = ''assistant'', content = ''Answer to What is GKE?''\<rparr>])"
    by code_simp
  let ?r = "\<lparr>answer = ''Answer to What is GKE?'',
             sources = [\<lparr>src_text = ''Cloud Run...'', src_relevance = Some (3::nat)\<rparr>,
                        \<lparr>src_text = ''Cloud...'', src_relevance = Some 7\<rparr>,
                        \<lparr>src_text = ''GKE...'', src_relevance = Some 9\<rparr>],
             context_used = 3\<rparr>"
  let ?h1 = "[\<lparr>role = ''user'', content = ''What is GKE?''\<rparr>,
              \<lparr>role = ''assistant'', content = ''Answer to What is GKE?''\<rparr>]"
  have a: "alternates []" by simp
  from query_history_alternates [of 5 "[]" "[]" "sample_call ''What is GKE?''" ?r ?h1] s a
  have e: "?h1 = last_n 20 ([] @ [\<lparr>role = ''user'', content = call_question (sample_call ''What is GKE?'')\<rparr>,
                                  \<lparr>role = ''assistant'', content = answer ?r\<rparr>])"
    and t: "alternates ?h1" by blast+
  have "answer ?r = ''Answer to What is GKE?''" by simp
  then have e': "?h1 = last_n 20 ([] @ [\<lparr>role = ''user'', content = call_question (sample_call ''What is GKE?'')\<rparr>,
                                  \<lparr>role = ''assistant'', content = ''Answer to What is GKE?''\<rparr>])"
    using e by (simp only:)
  show ?thesis by (intro conjI) (rule s, rule e', rule t)
qed

end
